theory Spec2Isabelle
  imports Complex_Main "HOL-Library.Sublist"
begin

section \<open>Medical Query Firewall: the decision pipeline of app/utils.py and app/app.py\<close>

text \<open>
  The pipeline is modelled function by function. Python strings are lists of 8-bit
  characters; on ASCII text the character classes, \<open>str.upper\<close> and \<open>str.lower\<close> below
  compute what Python computes, and every other character is left alone by them.
  Floats are read as the real numbers their literals denote: the code only compares
  them, apart from one product in the warn-threshold fallback.
  Exceptions are values: a function that can raise returns \<open>error + 'a\<close>.
  Module-level globals (\<open>RULES\<close>, \<open>clf\<close>, the threshold tables) and the \<open>re\<close> library
  applied to the patterns of the rule file travel in one record, \<open>module_state\<close>.
\<close>

subsection \<open>Strings\<close>

definition ascii_lowercase :: string where
  "ascii_lowercase = ''abcdefghijklmnopqrstuvwxyz''"

definition ascii_uppercase :: string where
  "ascii_uppercase = ''ABCDEFGHIJKLMNOPQRSTUVWXYZ''"

definition digits :: string where
  "digits = ''0123456789''"

definition upper_char :: "char \<Rightarrow> char" where
  "upper_char c = (case map_of (zip ascii_lowercase ascii_uppercase) c of None \<Rightarrow> c | Some u \<Rightarrow> u)"

definition lower_char :: "char \<Rightarrow> char" where
  "lower_char c = (case map_of (zip ascii_uppercase ascii_lowercase) c of None \<Rightarrow> c | Some l \<Rightarrow> l)"

definition upper :: "string \<Rightarrow> string" where
  "upper s = map upper_char s"

definition lower :: "string \<Rightarrow> string" where
  "lower s = map lower_char s"

text \<open>Python's \<open>needle in haystack\<close> on strings.\<close>

fun contains :: "string \<Rightarrow> string \<Rightarrow> bool" where
  "contains needle [] = (needle = [])"
| "contains needle (x # xs) = (take (length needle) (x # xs) = needle \<or> contains needle xs)"

subsection \<open>Data model\<close>

datatype error =
    ReError string
  | ValueError
  | IndexError

record rule =
  rule_id :: string
  pattern :: string
  severity :: string
  action :: string
  explanation :: string

record clf_result =
  label :: string
  score :: real
  proba :: "string \<rightharpoonup> real"

record hit =
  hit_class :: string
  hit_prob :: real
  hit_threshold :: real

datatype decision = ALLOW | WARN | BLOCK

text \<open>The order \<open>ALLOW < WARN < BLOCK\<close> of the decisions.\<close>

fun decision_rank :: "decision \<Rightarrow> nat" where
  "decision_rank ALLOW = 0"
| "decision_rank WARN = 1"
| "decision_rank BLOCK = 2"

text \<open>
  The dictionary returned by \<open>decision_aggregator\<close>: the keys \<open>block_hits\<close> and
  \<open>warn_hits\<close> are optional, \<open>None\<close> is an absent key.
\<close>

record aggregate =
  decision :: decision
  matched_rules :: "rule list"
  classifier :: clf_result
  block_hits :: "hit list option"
  warn_hits :: "hit list option"

text \<open>
  What the functions of utils.py read from their module: the rule list, the classifier
  (\<open>predict_proba\<close> and \<open>classes_\<close>), the two threshold dictionaries, and the regular
  expression library applied to rule patterns: \<open>re_compile p ignorecase\<close> is
  \<open>Inl msg\<close> where \<open>re.compile\<close> raises \<open>re.error\<close>. \<open>CLASS_THRESHOLDS\<close> is
  iterated, so it keeps its insertion order; \<open>WARN_THRESHOLDS\<close> is only looked up.
\<close>

record 'rx module_state =
  re_compile :: "string \<Rightarrow> bool \<Rightarrow> string + 'rx"
  re_search :: "'rx \<Rightarrow> string \<Rightarrow> bool"
  RULES :: "rule list"
  clf_predict_proba :: "string \<Rightarrow> real list"
  clf_classes :: "string list"
  CLASS_THRESHOLDS :: "(string \<times> real) list"
  WARN_THRESHOLDS :: "string \<rightharpoonup> real"

text \<open>The two tables as utils.py writes them.\<close>

definition utils_CLASS_THRESHOLDS :: "(string \<times> real) list" where
  "utils_CLASS_THRESHOLDS =
     [(''self_harm'', 0.40), (''prescription_request'', 0.60), (''procedural'', 0.55)]"

definition utils_WARN_THRESHOLDS :: "string \<rightharpoonup> real" where
  "utils_WARN_THRESHOLDS =
     [''self_harm'' \<mapsto> 0.25, ''prescription_request'' \<mapsto> 0.40, ''procedural'' \<mapsto> 0.35]"

text \<open>
  Module import: \<open>RULES = json.load(f)\<close>, applied to the rule list the file holds.
  No field of a rule is read and no pattern is compiled here.
\<close>

definition load_rules :: "rule list \<Rightarrow> error + rule list" where
  "load_rules file_rules = Inr file_rules"

subsection \<open>match_rules\<close>

text \<open>
  The loop over \<open>RULES\<close>: each pattern is compiled with \<open>re.IGNORECASE\<close>, which raises
  on a malformed pattern, then searched in the text; a rule that matches is appended.
\<close>

fun match_rules_loop ::
  "'rx module_state \<Rightarrow> rule list \<Rightarrow> string \<Rightarrow> rule list \<Rightarrow> error + rule list" where
  "match_rules_loop st [] text matches = Inr matches"
| "match_rules_loop st (r # rs) text matches =
     (case re_compile st (pattern r) True of
        Inl msg \<Rightarrow> Inl (ReError msg)
      | Inr patt \<Rightarrow>
          if re_search st patt text
          then match_rules_loop st rs text (matches @ [r])
          else match_rules_loop st rs text matches)"

definition match_rules :: "'rx module_state \<Rightarrow> string \<Rightarrow> error + rule list" where
  "match_rules st text = match_rules_loop st (RULES st) text []"

subsection \<open>classify_text\<close>

text \<open>\<open>numpy.argmax\<close>: the first index of the maximum; it raises on an empty array.\<close>

fun argmax_loop :: "nat \<Rightarrow> real \<Rightarrow> nat \<Rightarrow> real list \<Rightarrow> nat" where
  "argmax_loop best bv i [] = best"
| "argmax_loop best bv i (x # xs) =
     (if bv < x then argmax_loop i x (Suc i) xs else argmax_loop best bv (Suc i) xs)"

definition argmax :: "real list \<Rightarrow> error + nat" where
  "argmax xs = (case xs of [] \<Rightarrow> Inl ValueError | x # rest \<Rightarrow> Inr (argmax_loop 0 x 1 rest))"

text \<open>\<open>dict(zip(labels, probs))\<close>: a later pair overwrites an earlier one with its key.\<close>

definition dict_of :: "('k \<times> 'v) list \<Rightarrow> ('k \<rightharpoonup> 'v)" where
  "dict_of kvs = foldl (\<lambda>m (k, v). m(k \<mapsto> v)) Map.empty kvs"

definition classify_text :: "'rx module_state \<Rightarrow> string \<Rightarrow> error + clf_result" where
  "classify_text st text =
     (let p = clf_predict_proba st text;
          labels = clf_classes st
      in case argmax p of
           Inl e \<Rightarrow> Inl e
         | Inr top_idx \<Rightarrow>
             if top_idx < length labels
             then Inr \<lparr>label = labels ! top_idx, score = p ! top_idx,
                       proba = dict_of (zip labels p)\<rparr>
             else Inl IndexError)"

subsection \<open>decision_aggregator\<close>

text \<open>\<open>dict.get(key, default)\<close>.\<close>

definition dict_get :: "('k \<rightharpoonup> 'v) \<Rightarrow> 'k \<Rightarrow> 'v \<Rightarrow> 'v" where
  "dict_get d k dflt = (case d k of None \<Rightarrow> dflt | Some v \<Rightarrow> v)"

text \<open>
  The loop over \<open>CLASS_THRESHOLDS.items()\<close>, with the two lists it appends to.
\<close>

fun threshold_loop ::
  "(string \<rightharpoonup> real) \<Rightarrow> (string \<rightharpoonup> real) \<Rightarrow> (string \<times> real) list \<Rightarrow>
   hit list \<Rightarrow> hit list \<Rightarrow> hit list \<times> hit list" where
  "threshold_loop p warn [] bhits whits = (bhits, whits)"
| "threshold_loop p warn ((cls_name, blk_thr) # items) bhits whits =
     (let prob = dict_get p cls_name 0 in
      if prob \<ge> blk_thr
      then threshold_loop p warn items
             (bhits @ [\<lparr>hit_class = cls_name, hit_prob = prob, hit_threshold = blk_thr\<rparr>]) whits
      else
        (let warn_thr = dict_get warn cls_name (blk_thr * 0.6) in
         if prob \<ge> warn_thr
         then threshold_loop p warn items bhits
                (whits @ [\<lparr>hit_class = cls_name, hit_prob = prob, hit_threshold = warn_thr\<rparr>])
         else threshold_loop p warn items bhits whits))"

definition high_block :: "rule \<Rightarrow> bool" where
  "high_block r \<longleftrightarrow> upper (severity r) = ''HIGH'' \<and> upper (action r) = ''BLOCK''"

definition decision_aggregator :: "'rx module_state \<Rightarrow> string \<Rightarrow> error + aggregate" where
  "decision_aggregator st text =
     (case match_rules st text of
        Inl e \<Rightarrow> Inl e
      | Inr r_matches \<Rightarrow>
          if list_ex high_block r_matches
          then (case classify_text st text of
                  Inl e \<Rightarrow> Inl e
                | Inr clf_res \<Rightarrow>
                    Inr \<lparr>decision = BLOCK, matched_rules = r_matches, classifier = clf_res,
                         block_hits = None, warn_hits = None\<rparr>)
          else (case classify_text st text of
                  Inl e \<Rightarrow> Inl e
                | Inr clf_res \<Rightarrow>
                    (case threshold_loop (proba clf_res) (WARN_THRESHOLDS st)
                            (CLASS_THRESHOLDS st) [] [] of
                       (bhits, whits) \<Rightarrow>
                         if bhits \<noteq> []
                         then Inr \<lparr>decision = BLOCK, matched_rules = r_matches,
                                   classifier = clf_res, block_hits = Some bhits,
                                   warn_hits = None\<rparr>
                         else if whits \<noteq> []
                         then Inr \<lparr>decision = WARN, matched_rules = r_matches,
                                   classifier = clf_res, block_hits = None,
                                   warn_hits = Some whits\<rparr>
                         else
                           (let top_score = score clf_res in
                            if top_score \<ge> 0.85
                            then Inr \<lparr>decision = BLOCK, matched_rules = r_matches,
                                      classifier = clf_res, block_hits = None,
                                      warn_hits = None\<rparr>
                            else if top_score \<ge> 0.5
                            then Inr \<lparr>decision = WARN, matched_rules = r_matches,
                                      classifier = clf_res, block_hits = None,
                                      warn_hits = None\<rparr>
                            else Inr \<lparr>decision = ALLOW, matched_rules = r_matches,
                                      classifier = clf_res, block_hits = None,
                                      warn_hits = None\<rparr>))))"

subsection \<open>mask_pii\<close>

text \<open>
  The three patterns of \<open>PII_PATTERNS\<close> are sequences of the items below: \<open>One cs\<close>
  is one character of the class \<open>cs\<close>, \<open>Plus cs\<close> is the greedy \<open>[cs]+\<close>, \<open>Bnd\<close> is
  the word boundary \<open>\b\<close>. \<open>match_lens p prev s\<close> lists the lengths of the matches of
  \<open>p\<close> at the start of \<open>s\<close>, \<open>prev\<close> being the character before, in the order in
  which a backtracking matcher finds them: a greedy repetition tries one more character
  before it tries the rest of the pattern. The match \<open>re\<close> reports is the first one.
\<close>

datatype item = One string | Plus string | Bnd

definition word_chars :: string where
  "word_chars = ascii_lowercase @ ascii_uppercase @ digits @ ''_''"

definition boundary :: "char option \<Rightarrow> string \<Rightarrow> bool" where
  "boundary prev s \<longleftrightarrow>
     (case prev of None \<Rightarrow> False | Some c \<Rightarrow> c \<in> set word_chars)
       \<noteq> (case s of [] \<Rightarrow> False | x # _ \<Rightarrow> x \<in> set word_chars)"

fun match_lens :: "item list \<Rightarrow> char option \<Rightarrow> string \<Rightarrow> nat list" where
  "match_lens [] prev s = [0]"
| "match_lens (Bnd # p) prev s = (if boundary prev s then match_lens p prev s else [])"
| "match_lens (One cs # p) prev [] = []"
| "match_lens (One cs # p) prev (x # xs) =
     (if x \<in> set cs then map Suc (match_lens p (Some x) xs) else [])"
| "match_lens (Plus cs # p) prev [] = []"
| "match_lens (Plus cs # p) prev (x # xs) =
     (if x \<in> set cs
      then map Suc (match_lens (Plus cs # p) (Some x) xs @ match_lens p (Some x) xs)
      else [])"

definition match_at :: "item list \<Rightarrow> char option \<Rightarrow> string \<Rightarrow> nat option" where
  "match_at p prev s = (case match_lens p prev s of [] \<Rightarrow> None | n # _ \<Rightarrow> Some n)"

text \<open>\<open>patt.search(s)\<close>: is there a match at some position, the end of the text included.\<close>

fun search_from :: "item list \<Rightarrow> char option \<Rightarrow> string \<Rightarrow> bool" where
  "search_from p prev [] = (match_at p prev [] \<noteq> None)"
| "search_from p prev (x # xs) = (match_at p prev (x # xs) \<noteq> None \<or> search_from p (Some x) xs)"

definition search :: "item list \<Rightarrow> string \<Rightarrow> bool" where
  "search p s = search_from p None s"

text \<open>
  \<open>patt.sub(repl, s)\<close>: the text is scanned from the left; at a position where the
  pattern matches, the replacement is written and the scan goes on after the match,
  otherwise the character is copied. \<open>skip\<close> counts the characters of the current match
  that are still to be passed over. An empty match writes the replacement and copies the
  character, as Python 3.7 and later do; none of the three patterns has one.
\<close>

fun sub_loop :: "item list \<Rightarrow> string \<Rightarrow> nat \<Rightarrow> char option \<Rightarrow> string \<Rightarrow> string" where
  "sub_loop p repl skip prev [] =
     (if skip = 0 \<and> match_at p prev [] \<noteq> None then repl else [])"
| "sub_loop p repl (Suc k) prev (x # xs) = sub_loop p repl k (Some x) xs"
| "sub_loop p repl 0 prev (x # xs) =
     (case match_at p prev (x # xs) of
        None \<Rightarrow> x # sub_loop p repl 0 (Some x) xs
      | Some 0 \<Rightarrow> repl @ x # sub_loop p repl 0 (Some x) xs
      | Some (Suc k) \<Rightarrow> repl @ sub_loop p repl k (Some x) xs)"

definition sub :: "item list \<Rightarrow> string \<Rightarrow> string \<Rightarrow> string" where
  "sub p repl s = sub_loop p repl 0 None s"

text \<open>
  The patterns of utils.py, in dictionary order:
  \<^verbatim>\<open>[a-zA-Z0-9.\-+_]+@[a-zA-Z0-9.\-+_]+\.[a-zA-Z]+\<close>, \<^verbatim>\<open>\b\d{10}\b\<close> and
  \<^verbatim>\<open>\b\d{12}\b\<close>.
\<close>

definition email_chars :: string where
  "email_chars = ascii_lowercase @ ascii_uppercase @ digits @ ''.-+_''"

definition email_pattern :: "item list" where
  "email_pattern =
     [Plus email_chars, One ''@'', Plus email_chars, One ''.'',
      Plus (ascii_lowercase @ ascii_uppercase)]"

definition phone_pattern :: "item list" where
  "phone_pattern = Bnd # replicate 10 (One digits) @ [Bnd]"

definition aadhaar_pattern :: "item list" where
  "aadhaar_pattern = Bnd # replicate 12 (One digits) @ [Bnd]"

definition PII_PATTERNS :: "(string \<times> item list) list" where
  "PII_PATTERNS =
     [(''email'', email_pattern), (''phone'', phone_pattern), (''aadhaar'', aadhaar_pattern)]"

record pii_result =
  masked_text :: string
  pii :: "string list"

fun mask_pii_loop :: "(string \<times> item list) list \<Rightarrow> string \<Rightarrow> string list \<Rightarrow> pii_result" where
  "mask_pii_loop [] masked pii_found = \<lparr>masked_text = masked, pii = pii_found\<rparr>"
| "mask_pii_loop ((name, patt) # rest) masked pii_found =
     (if search patt masked
      then mask_pii_loop rest (sub patt (''['' @ upper name @ '']'') masked) (pii_found @ [name])
      else mask_pii_loop rest masked pii_found)"

definition mask_pii :: "string \<Rightarrow> pii_result" where
  "mask_pii text = mask_pii_loop PII_PATTERNS text []"

subsection \<open>pass_through_llm\<close>

definition KB :: "(string \<times> string) list" where
  "KB =
     [(''What are symptoms of flu?'',
       ''Common flu symptoms include fever, cough, sore throat, muscle aches. Seek medical care if breathing difficulty occurs.''),
      (''What is a normal blood pressure?'',
       ''Normal blood pressure is around 120/80 mmHg, but targets depend on age and comorbidities.'')]"

fun pass_through_llm_loop :: "(string \<times> string) list \<Rightarrow> string \<Rightarrow> string" where
  "pass_through_llm_loop [] text =
     ''I can provide general medical information, but not personalized prescriptions. Consult a licensed provider for treatment decisions.''"
| "pass_through_llm_loop ((k, answer) # kb) text =
     (if contains (lower k) (lower text) then answer else pass_through_llm_loop kb text)"

definition pass_through_llm :: "string \<Rightarrow> string" where
  "pass_through_llm text = pass_through_llm_loop KB text"

subsection \<open>chat_endpoint\<close>

text \<open>
  The handler of \<open>POST /api/chat\<close> in app.py. The request body gives the optional
  keys \<open>text\<close> and \<open>session_id\<close>. The audit sink \<open>insert_audit\<close> of audit_db.py
  writes to a database: it is a parameter here, \<open>Inl msg\<close> standing for an exception
  whose text is \<open>msg\<close>, \<open>Inr i\<close> for the new row id. The clock is the parameter
  \<open>now\<close>. The counters of \<open>METRICS\<close> and the log lines are left out: nothing returned
  depends on them. The non-ASCII apostrophe of the refusal message is written as an
  ASCII one.
\<close>

record request =
  req_text :: "string option"
  req_session_id :: "string option"

record rule_summary =
  rs_id :: string
  rs_explanation :: string
  rs_action :: string

record explain =
  ex_masked_text :: string
  ex_pii_detected :: "string list"
  ex_matched_rules :: "rule_summary list"
  ex_classifier :: clf_result
  audit_id :: "nat option"
  audit_error :: "string option"

record audit_record =
  au_timestamp :: string
  au_session_id :: string
  au_raw_text :: string
  au_masked_text :: string
  au_pii :: "string list"
  au_decision :: decision
  au_classifier :: clf_result
  au_matched_rules :: "string list"
  au_block_hits :: "hit list"
  au_warn_hits :: "hit list"

record response =
  resp_decision :: decision
  safe_response :: "string option"
  llm_response :: "string option"
  warning :: "string option"
  resp_explain :: explain

definition chat_endpoint ::
  "'rx module_state \<Rightarrow> (audit_record \<Rightarrow> string + nat) \<Rightarrow> string \<Rightarrow> request \<Rightarrow> error + response"
  where
  "chat_endpoint st insert_audit now req =
     (let text = (case req_text req of None \<Rightarrow> [] | Some t \<Rightarrow> t);
          session_id = (case req_session_id req of None \<Rightarrow> ''anon'' | Some s \<Rightarrow> s);
          pii_res = mask_pii text;
          masked = masked_text pii_res
      in case decision_aggregator st masked of
           Inl e \<Rightarrow> Inl e
         | Inr dec \<Rightarrow>
             (let explain0 =
                    \<lparr>ex_masked_text = masked, ex_pii_detected = pii pii_res,
                     ex_matched_rules =
                       map (\<lambda>r. \<lparr>rs_id = rule_id r, rs_explanation = explanation r,
                                  rs_action = action r\<rparr>) (matched_rules dec),
                     ex_classifier = classifier dec, audit_id = None, audit_error = None\<rparr>;
                  audit =
                    \<lparr>au_timestamp = now @ ''Z'', au_session_id = session_id,
                     au_raw_text = text, au_masked_text = masked, au_pii = pii pii_res,
                     au_decision = decision dec, au_classifier = classifier dec,
                     au_matched_rules = map rule_id (matched_rules dec),
                     au_block_hits = (case block_hits dec of None \<Rightarrow> [] | Some hs \<Rightarrow> hs),
                     au_warn_hits = (case warn_hits dec of None \<Rightarrow> [] | Some hs \<Rightarrow> hs)\<rparr>;
                  explain1 =
                    (case insert_audit audit of
                       Inr new_id \<Rightarrow> explain0\<lparr>audit_id := Some new_id\<rparr>
                     | Inl msg \<Rightarrow> explain0\<lparr>audit_error := Some msg\<rparr>)
              in if decision dec = BLOCK
                 then Inr \<lparr>resp_decision = BLOCK,
                           safe_response = Some ''Sorry, I can't assist with that. This request appears unsafe. Please consult a licensed healthcare professional or ask for general information.'',
                           llm_response = None, warning = None, resp_explain = explain1\<rparr>
                 else if decision dec = WARN
                 then Inr \<lparr>resp_decision = WARN, safe_response = None,
                           llm_response = Some (pass_through_llm masked),
                           warning = Some ''This query appears risky. Please consult a professional for prescriptions/procedures.'',
                           resp_explain = explain1\<rparr>
                 else Inr \<lparr>resp_decision = ALLOW, safe_response = None,
                           llm_response = Some (pass_through_llm masked),
                           warning = None, resp_explain = explain1\<rparr>))"

subsection \<open>Predicates used to state the properties\<close>

text \<open>
  \<open>compiles\<close>: the pattern of a rule is accepted by \<open>re.compile\<close> under
  \<open>re.IGNORECASE\<close>. \<open>rule_matches\<close>: it is, and its search in the text succeeds.
  \<open>block_hit\<close>, \<open>warn_hit\<close>: what Tier 2 records for one entry of
  \<open>CLASS_THRESHOLDS\<close>, a class missing from the distribution counting as probability 0;
  \<open>warn_threshold\<close> is the configured warn threshold of the class, or 0.6 times its
  block threshold when none is configured.
\<close>

definition compiles :: "'rx module_state \<Rightarrow> rule \<Rightarrow> bool" where
  "compiles st r = (case re_compile st (pattern r) True of Inl _ \<Rightarrow> False | Inr _ \<Rightarrow> True)"

definition rule_matches :: "'rx module_state \<Rightarrow> string \<Rightarrow> rule \<Rightarrow> bool" where
  "rule_matches st text r =
     (case re_compile st (pattern r) True of Inl _ \<Rightarrow> False | Inr patt \<Rightarrow> re_search st patt text)"

definition block_hit :: "(string \<rightharpoonup> real) \<Rightarrow> string \<times> real \<Rightarrow> bool" where
  "block_hit p ct = (dict_get p (fst ct) 0 \<ge> snd ct)"

definition warn_threshold :: "(string \<rightharpoonup> real) \<Rightarrow> string \<times> real \<Rightarrow> real" where
  "warn_threshold warn ct = (case warn (fst ct) of None \<Rightarrow> 0.6 * snd ct | Some w \<Rightarrow> w)"

definition warn_hit :: "(string \<rightharpoonup> real) \<Rightarrow> (string \<rightharpoonup> real) \<Rightarrow> string \<times> real \<Rightarrow> bool" where
  "warn_hit p warn ct = (\<not> block_hit p ct \<and> dict_get p (fst ct) 0 \<ge> warn_threshold warn ct)"

definition mk_block_hit :: "(string \<rightharpoonup> real) \<Rightarrow> string \<times> real \<Rightarrow> hit" where
  "mk_block_hit p ct = \<lparr>hit_class = fst ct, hit_prob = dict_get p (fst ct) 0, hit_threshold = snd ct\<rparr>"

definition mk_warn_hit :: "(string \<rightharpoonup> real) \<Rightarrow> (string \<rightharpoonup> real) \<Rightarrow> string \<times> real \<Rightarrow> hit" where
  "mk_warn_hit p warn ct = \<lparr>hit_class = fst ct, hit_prob = dict_get p (fst ct) 0, hit_threshold = warn_threshold warn ct\<rparr>"

text \<open>
  For the statements about patterns: the characters an item can consume, those a
  pattern can consume, and \<open>occurs p s\<close>, a match of \<open>p\<close> starting somewhere in
  \<open>s\<close>.
\<close>

fun item_chars :: "item \<Rightarrow> string" where
  "item_chars (One cs) = cs"
| "item_chars (Plus cs) = cs"
| "item_chars Bnd = []"

definition pat_chars :: "item list \<Rightarrow> string" where
  "pat_chars p = concat (map item_chars p)"

definition occurs :: "item list \<Rightarrow> string \<Rightarrow> bool" where
  "occurs p s \<longleftrightarrow> (\<exists>u v. s = u @ v \<and> match_lens p None v \<noteq> [])"

text \<open>
  \<open>inert p cs repl\<close>: the replacement text cannot take part in a match of \<open>p\<close>. The
  pattern has no word boundary and a mandatory character of class \<open>cs\<close>; the replacement
  starts and ends with a character the pattern cannot consume and holds no character of
  \<open>cs\<close>.
\<close>

definition inert :: "item list \<Rightarrow> string \<Rightarrow> string \<Rightarrow> bool" where
  "inert p cs repl \<longleftrightarrow>
     Bnd \<notin> set p \<and> One cs \<in> set p \<and> repl \<noteq> [] \<and> hd repl \<notin> set (pat_chars p) \<and>
     last repl \<notin> set (pat_chars p) \<and> set cs \<inter> set repl = {}"

subsection \<open>A configuration to run the pipeline on\<close>

text \<open>
  The rule file and the trained model are not part of the sources, so the concrete runs
  below use a configuration of their own: two rules, a classifier stub over the four
  labels of the training script, and the threshold tables of utils.py. Its regular
  expression library covers the patterns those runs need: a pattern made of letters,
  digits and spaces is literal text, searched case-insensitively under
  \<open>re.IGNORECASE\<close>; any other pattern is refused. The one malformed pattern used
  below, a lone opening parenthesis, is refused by \<open>re.compile\<close> as well.
\<close>

definition literal_re_compile :: "string \<Rightarrow> bool \<Rightarrow> string + bool \<times> string" where
  "literal_re_compile p ignorecase =
     (if list_all (\<lambda>c. c \<in> set (ascii_lowercase @ ascii_uppercase @ digits @ '' '')) p
      then Inr (ignorecase, p)
      else Inl ''pattern outside the literal fragment'')"

definition literal_re_search :: "bool \<times> string \<Rightarrow> string \<Rightarrow> bool" where
  "literal_re_search rx text =
     (case rx of (ignorecase, p) \<Rightarrow>
        if ignorecase then contains (lower p) (lower text) else contains p text)"

definition demo_rules :: "rule list" where
  "demo_rules =
     [\<lparr>rule_id = ''R1'', pattern = ''overdose'', severity = ''HIGH'', action = ''BLOCK'',
       explanation = ''overdose instructions''\<rparr>,
      \<lparr>rule_id = ''R2'', pattern = ''dosage'', severity = ''MEDIUM'', action = ''WARN'',
       explanation = ''dosage request''\<rparr>]"

definition demo_predict_proba :: "string \<Rightarrow> real list" where
  "demo_predict_proba text =
     (if text = ''What are symptoms of flu?'' then [0.9, 0.04, 0.03, 0.03]
      else if text = ''I want to hurt myself'' then [0.1, 0.1, 0.1, 0.7]
      else if text = ''Give me dosage of insulin'' then [0.3, 0.45, 0.2, 0.05]
      else if text = ''pills and needles'' then [0.05, 0.45, 0.05, 0.45]
      else if text = ''How to Overdose safely'' then [0, 0, 0, 0]
      else if text = ''hello'' then [0.85, 0.05, 0.05, 0.05]
      else if text = ''What is a normal blood pressure?'' then [0.6, 0.15, 0.15, 0.1]
      else [0.4, 0.2, 0.2, 0.2])"

definition demo_state :: "(bool \<times> string) module_state" where
  "demo_state =
     \<lparr>re_compile = literal_re_compile, re_search = literal_re_search, RULES = demo_rules,
      clf_predict_proba = demo_predict_proba,
      clf_classes = [''general_info'', ''prescription_request'', ''procedural'', ''self_harm''],
      CLASS_THRESHOLDS = utils_CLASS_THRESHOLDS, WARN_THRESHOLDS = utils_WARN_THRESHOLDS\<rparr>"

definition bad_rules :: "rule list" where
  "bad_rules =
     [\<lparr>rule_id = ''R3'', pattern = ''('', severity = ''LOW'', action = ''NONE'',
       explanation = ''unbalanced parenthesis''\<rparr>]"

section \<open>Properties\<close>

subsection \<open>The loops in closed form\<close>

lemma match_rules_loop_ok:
  "list_all (compiles st) rs \<Longrightarrow>
   match_rules_loop st rs text acc = Inr (acc @ filter (rule_matches st text) rs)"
  by (induction rs arbitrary: acc) (auto simp: compiles_def rule_matches_def split: sum.splits)

lemma match_rules_loop_err:
  "\<not> list_all (compiles st) rs \<Longrightarrow> \<exists>msg. match_rules_loop st rs text acc = Inl (ReError msg)"
  by (induction rs arbitrary: acc) (auto simp: compiles_def split: sum.splits)

lemma match_rules_ok:
  "list_all (compiles st) (RULES st) \<Longrightarrow>
   match_rules st text = Inr (filter (rule_matches st text) (RULES st))"
  by (simp add: match_rules_def match_rules_loop_ok)

lemma match_rules_err:
  "\<not> list_all (compiles st) (RULES st) \<Longrightarrow> \<exists>msg. match_rules st text = Inl (ReError msg)"
  by (simp add: match_rules_def match_rules_loop_err)

lemma match_rules_Inr:
  assumes "match_rules st text = Inr ms"
  shows "list_all (compiles st) (RULES st)" and "ms = filter (rule_matches st text) (RULES st)"
proof -
  show c: "list_all (compiles st) (RULES st)"
    using assms match_rules_err[of st "text"] by (cases "list_all (compiles st) (RULES st)") auto
  show "ms = filter (rule_matches st text) (RULES st)"
    using assms match_rules_ok[OF c, of "text"] by simp
qed

lemma threshold_loop_eq:
  "threshold_loop p warn items bh wh =
     (bh @ map (mk_block_hit p) (filter (block_hit p) items),
      wh @ map (mk_warn_hit p warn) (filter (warn_hit p warn) items))"
  by (induction p warn items bh wh rule: threshold_loop.induct)
     (auto simp: block_hit_def warn_hit_def mk_block_hit_def mk_warn_hit_def warn_threshold_def
                 dict_get_def Let_def split: option.splits)

lemma aggregator_tier1:
  assumes "match_rules st text = Inr ms" "list_ex high_block ms" "classify_text st text = Inr c"
  shows "decision_aggregator st text =
           Inr \<lparr>decision = BLOCK, matched_rules = ms, classifier = c,
                block_hits = None, warn_hits = None\<rparr>"
  using assms by (simp add: decision_aggregator_def)

lemma aggregator_tier23:
  assumes "match_rules st text = Inr ms" "\<not> list_ex high_block ms" "classify_text st text = Inr c"
  shows "decision_aggregator st text =
     (let bs = filter (block_hit (proba c)) (CLASS_THRESHOLDS st);
          ws = filter (warn_hit (proba c) (WARN_THRESHOLDS st)) (CLASS_THRESHOLDS st)
      in if bs \<noteq> [] then
           Inr \<lparr>decision = BLOCK, matched_rules = ms, classifier = c,
                block_hits = Some (map (mk_block_hit (proba c)) bs), warn_hits = None\<rparr>
         else if ws \<noteq> [] then
           Inr \<lparr>decision = WARN, matched_rules = ms, classifier = c, block_hits = None,
                warn_hits = Some (map (mk_warn_hit (proba c) (WARN_THRESHOLDS st)) ws)\<rparr>
         else
           Inr \<lparr>decision = (if score c \<ge> 0.85 then BLOCK else if score c \<ge> 0.5 then WARN else ALLOW),
                matched_rules = ms, classifier = c, block_hits = None, warn_hits = None\<rparr>)"
  using assms by (simp add: decision_aggregator_def threshold_loop_eq Let_def)

lemma argmax_loop_max:
  "length pre = i \<Longrightarrow> best < i \<Longrightarrow> bv = pre ! best \<Longrightarrow> bv = Max (set pre) \<Longrightarrow>
   argmax_loop best bv i xs < length (pre @ xs) \<and>
   (pre @ xs) ! argmax_loop best bv i xs = Max (set (pre @ xs))"
proof (induction xs arbitrary: best bv i pre)
  case Nil
  then show ?case by simp
next
  case (Cons x xs)
  have ne: "set pre \<noteq> {}" using Cons.prems by auto
  show ?case
  proof (cases "bv < x")
    case True
    have "x = Max (set (pre @ [x]))"
      using True Cons.prems ne by (simp add: max_def)
    then show ?thesis
      using Cons.IH[of "pre @ [x]" "Suc i" i x] Cons.prems True by (simp add: nth_append)
  next
    case False
    have "bv = Max (set (pre @ [x]))"
      using False Cons.prems ne by (simp add: max_def)
    then show ?thesis
      using Cons.IH[of "pre @ [x]" "Suc i" best bv] Cons.prems False by (simp add: nth_append)
  qed
qed

lemma classify_text_score:
  assumes "classify_text st text = Inr c"
  shows "score c = Max (set (clf_predict_proba st text))"
proof (cases "clf_predict_proba st text")
  case Nil
  then show ?thesis using assms by (simp add: classify_text_def argmax_def)
next
  case (Cons x rest)
  have "(x # rest) ! argmax_loop 0 x 1 rest = Max (set (x # rest))"
    using argmax_loop_max[of "[x]" 1 0 x rest] by simp
  then show ?thesis using assms Cons
    by (auto simp: classify_text_def argmax_def Let_def split: if_splits)
qed

lemma high_block_ex:
  "list_ex high_block ms \<longleftrightarrow>
   (\<exists>r\<in>set ms. upper (severity r) = ''HIGH'' \<and> upper (action r) = ''BLOCK'')"
  by (simp add: list_ex_iff high_block_def)

lemma aggregator_returns:
  assumes "match_rules st text = Inr ms" "classify_text st text = Inr c"
  shows "\<exists>a. decision_aggregator st text = Inr a"
proof (cases "list_ex high_block ms")
  case True
  then show ?thesis using aggregator_tier1[OF assms(1) True assms(2)] by simp
next
  case False
  then show ?thesis using aggregator_tier23[OF assms(1) False assms(2)] by (simp add: Let_def)
qed

subsection \<open>Matches of a pattern and the text around them\<close>

lemma match_lens_le: "n \<in> set (match_lens p prev s) \<Longrightarrow> n \<le> length s"
  by (induction p prev s arbitrary: n rule: match_lens.induct) (auto split: if_splits)

lemma match_lens_chars:
  "n \<in> set (match_lens p prev s) \<Longrightarrow> c \<in> set (take n s) \<Longrightarrow> c \<in> set (pat_chars p)"
proof (induction p prev s arbitrary: n rule: match_lens.induct)
  case (1 prev s)
  then show ?case by simp
next
  case (2 p prev s)
  then show ?case by (auto simp: pat_chars_def split: if_splits)
next
  case (3 cs p prev)
  then show ?case by simp
next
  case (4 cs p prev x xs)
  from "4.prems"(1) obtain m where m: "x \<in> set cs" "n = Suc m" "m \<in> set (match_lens p (Some x) xs)"
    by (auto split: if_splits)
  from "4.prems"(2) m(2) have "c = x \<or> c \<in> set (take m xs)" by auto
  then show ?case
  proof
    assume "c = x"
    then show ?thesis using m(1) by (simp add: pat_chars_def)
  next
    assume "c \<in> set (take m xs)"
    then have "c \<in> set (pat_chars p)" using "4.IH"[OF m(1) m(3)] by simp
    then show ?thesis by (simp add: pat_chars_def)
  qed
next
  case (5 cs p prev)
  then show ?case by simp
next
  case (6 cs p prev x xs)
  from "6.prems"(1) obtain m where m: "x \<in> set cs" "n = Suc m"
      "m \<in> set (match_lens (Plus cs # p) (Some x) xs) \<or> m \<in> set (match_lens p (Some x) xs)"
    by (auto split: if_splits)
  from "6.prems"(2) m(2) have "c = x \<or> c \<in> set (take m xs)" by auto
  then show ?case
  proof
    assume "c = x"
    then show ?thesis using m(1) by (simp add: pat_chars_def)
  next
    assume c: "c \<in> set (take m xs)"
    from m(3) show ?thesis
    proof
      assume "m \<in> set (match_lens (Plus cs # p) (Some x) xs)"
      then show ?thesis using "6.IH"(1)[OF m(1) _ c] by simp
    next
      assume "m \<in> set (match_lens p (Some x) xs)"
      then have "c \<in> set (pat_chars p)" using "6.IH"(2)[OF m(1) _ c] by simp
      then show ?thesis by (simp add: pat_chars_def)
    qed
  qed
qed

lemma match_lens_local:
  "n \<in> set (match_lens p prev s) \<Longrightarrow> Bnd \<notin> set p \<Longrightarrow> take n s = take n s' \<Longrightarrow>
   n \<in> set (match_lens p prev' s')"
proof (induction p prev s arbitrary: n prev' s' rule: match_lens.induct)
  case (1 prev s)
  then show ?case by simp
next
  case (2 p prev s)
  then show ?case by simp
next
  case (3 cs p prev)
  then show ?case by simp
next
  case (4 cs p prev x xs)
  from "4.prems"(1) obtain m where m: "x \<in> set cs" "n = Suc m" "m \<in> set (match_lens p (Some x) xs)"
    by (auto split: if_splits)
  from "4.prems"(3) m(2) obtain xs' where s': "s' = x # xs'" "take m xs = take m xs'"
    by (cases s') auto
  have "m \<in> set (match_lens p (Some x) xs')"
    using "4.IH"[OF m(1) m(3) _ s'(2)] "4.prems"(2) by simp
  then show ?case using m s' by simp
next
  case (5 cs p prev)
  then show ?case by simp
next
  case (6 cs p prev x xs)
  from "6.prems"(1) obtain m where m: "x \<in> set cs" "n = Suc m"
      "m \<in> set (match_lens (Plus cs # p) (Some x) xs) \<or> m \<in> set (match_lens p (Some x) xs)"
    by (auto split: if_splits)
  from "6.prems"(3) m(2) obtain xs' where s': "s' = x # xs'" "take m xs = take m xs'"
    by (cases s') auto
  from m(3) have "m \<in> set (match_lens (Plus cs # p) (Some x) xs') \<or> m \<in> set (match_lens p (Some x) xs')"
  proof
    assume "m \<in> set (match_lens (Plus cs # p) (Some x) xs)"
    then show ?thesis using "6.IH"(1)[OF m(1) _ _ s'(2)] "6.prems"(2) by simp
  next
    assume "m \<in> set (match_lens p (Some x) xs)"
    then show ?thesis using "6.IH"(2)[OF m(1) _ _ s'(2)] "6.prems"(2) by simp
  qed
  then show ?case using m s' by auto
qed

lemma match_lens_needs:
  "n \<in> set (match_lens p prev s) \<Longrightarrow> One cs \<in> set p \<Longrightarrow> \<exists>x\<in>set (take n s). x \<in> set cs"
proof (induction p prev s arbitrary: n rule: match_lens.induct)
  case (1 prev s)
  then show ?case by simp
next
  case (2 p prev s)
  then show ?case by (auto split: if_splits)
next
  case (3 cs' p prev)
  then show ?case by simp
next
  case (4 cs' p prev x xs)
  from "4.prems"(1) obtain m where m: "x \<in> set cs'" "n = Suc m" "m \<in> set (match_lens p (Some x) xs)"
    by (auto split: if_splits)
  show ?case
  proof (cases "cs = cs'")
    case True
    then show ?thesis using m by auto
  next
    case False
    then have "One cs \<in> set p" using "4.prems"(2) by simp
    then obtain y where "y \<in> set (take m xs)" "y \<in> set cs"
      using "4.IH"[OF m(1) m(3)] by blast
    then show ?thesis using m(2) by auto
  qed
next
  case (5 cs' p prev)
  then show ?case by simp
next
  case (6 cs' p prev x xs)
  from "6.prems"(1) obtain m where m: "x \<in> set cs'" "n = Suc m"
      "m \<in> set (match_lens (Plus cs' # p) (Some x) xs) \<or> m \<in> set (match_lens p (Some x) xs)"
    by (auto split: if_splits)
  have p: "One cs \<in> set p" using "6.prems"(2) by simp
  from m(3) obtain y where "y \<in> set (take m xs)" "y \<in> set cs"
  proof
    assume "m \<in> set (match_lens (Plus cs' # p) (Some x) xs)"
    then show ?thesis using "6.IH"(1)[OF m(1) _ "6.prems"(2)] that by blast
  next
    assume "m \<in> set (match_lens p (Some x) xs)"
    then show ?thesis using "6.IH"(2)[OF m(1) _ p] that by blast
  qed
  then show ?case using m(2) by auto
qed

lemma occurs_Nil: "occurs p [] \<longleftrightarrow> match_lens p None [] \<noteq> []"
  by (simp add: occurs_def)

lemma occurs_Cons: "occurs p (x # s) \<longleftrightarrow> match_lens p None (x # s) \<noteq> [] \<or> occurs p s"
proof
  assume "occurs p (x # s)"
  then obtain u v where uv: "x # s = u @ v" "match_lens p None v \<noteq> []"
    by (auto simp: occurs_def)
  show "match_lens p None (x # s) \<noteq> [] \<or> occurs p s"
  proof (cases u)
    case Nil
    then show ?thesis using uv by simp
  next
    case (Cons y u')
    then have "s = u' @ v" using uv by simp
    then show ?thesis using uv(2) by (auto simp: occurs_def)
  qed
next
  assume "match_lens p None (x # s) \<noteq> [] \<or> occurs p s"
  then show "occurs p (x # s)"
  proof
    assume "match_lens p None (x # s) \<noteq> []"
    then have "x # s = [] @ (x # s) \<and> match_lens p None (x # s) \<noteq> []" by simp
    then show ?thesis unfolding occurs_def by blast
  next
    assume "occurs p s"
    then obtain u v where "s = u @ v" "match_lens p None v \<noteq> []" by (auto simp: occurs_def)
    then have "x # s = (x # u) @ v \<and> match_lens p None v \<noteq> []" by simp
    then show ?thesis unfolding occurs_def by blast
  qed
qed

lemma match_lens_prev:
  "Bnd \<notin> set p \<Longrightarrow> match_lens p prev s \<noteq> [] \<Longrightarrow> match_lens p prev' s \<noteq> []"
proof -
  assume b: "Bnd \<notin> set p" and "match_lens p prev s \<noteq> []"
  then obtain n where "n \<in> set (match_lens p prev s)" by (cases "match_lens p prev s") auto
  then have "n \<in> set (match_lens p prev' s)" using match_lens_local[OF _ b] by blast
  then show ?thesis by auto
qed

lemma search_from_occurs:
  "Bnd \<notin> set p \<Longrightarrow> search_from p prev s \<longleftrightarrow> occurs p s"
proof (induction s arbitrary: prev)
  case Nil
  then show ?case
    using match_lens_prev[of p prev "[]" None] match_lens_prev[of p None "[]" prev]
    by (auto simp: occurs_Nil match_at_def split: list.splits)
next
  case (Cons x s)
  have "match_at p prev (x # s) \<noteq> None \<longleftrightarrow> match_lens p None (x # s) \<noteq> []"
    using match_lens_prev[OF Cons.prems, of prev "x # s" None]
          match_lens_prev[OF Cons.prems, of None "x # s" prev]
    by (auto simp: match_at_def split: list.splits)
  then show ?case using Cons.IH[OF Cons.prems] by (simp add: occurs_Cons)
qed

lemma search_occurs: "Bnd \<notin> set p \<Longrightarrow> search p s \<longleftrightarrow> occurs p s"
  by (simp add: search_def search_from_occurs)

lemma no_match_in_repl:
  assumes "inert p cs repl" and "a \<noteq> []" and "suffix a repl"
  shows "match_lens p prev (a @ t) = []"
proof (rule ccontr)
  assume "match_lens p prev (a @ t) \<noteq> []"
  then obtain n where n: "n \<in> set (match_lens p prev (a @ t))"
    by (cases "match_lens p prev (a @ t)") auto
  obtain w where w: "a = w @ [last repl]"
    using assms(2,3) by (metis append_butlast_last_id last_appendR suffix_def)
  have "n \<le> length w"
  proof (rule ccontr)
    assume "\<not> n \<le> length w"
    then obtain k where "n = Suc (length w + k)"
      using less_imp_Suc_add[of "length w" n] by auto
    then have "take n (a @ t) = w @ last repl # take k t" unfolding w by simp
    then have "last repl \<in> set (take n (a @ t))" by simp
    then show False using match_lens_chars[OF n] assms(1) by (auto simp: inert_def)
  qed
  then have tk: "take n (a @ t) = take n w" unfolding w by simp
  have "set a \<subseteq> set repl" using assms(3) by (rule set_mono_suffix)
  then have "set w \<subseteq> set repl" using w by auto
  then have "set (take n (a @ t)) \<subseteq> set repl" using tk by (auto dest: in_set_takeD)
  moreover obtain x where "x \<in> set (take n (a @ t))" "x \<in> set cs"
    using match_lens_needs[OF n] assms(1) by (auto simp: inert_def)
  ultimately show False using assms(1) by (auto simp: inert_def)
qed

lemma occurs_after_repl:
  assumes "inert p cs repl" and "occurs p (repl @ t)"
  shows "occurs p t"
proof -
  from assms(2) obtain u v where uv: "repl @ t = u @ v" "match_lens p None v \<noteq> []"
    by (auto simp: occurs_def)
  from uv(1) consider (inside) a where "repl = u @ a" "v = a @ t"
    | (after) u' where "u = repl @ u'" "t = u' @ v"
    by (auto simp: append_eq_append_conv2)
  then show ?thesis
  proof cases
    case inside
    show ?thesis
    proof (cases "a = []")
      case True
      then have "t = [] @ v \<and> match_lens p None v \<noteq> []" using inside uv(2) by simp
      then show ?thesis unfolding occurs_def by blast
    next
      case False
      have "suffix a repl" using inside(1) by (simp add: suffix_def)
      then show ?thesis using no_match_in_repl[OF assms(1) False, of None t] uv(2) inside(2)
        by simp
    qed
  next
    case after
    then show ?thesis using uv(2) unfolding occurs_def by blast
  qed
qed

lemma take_takeWhile:
  "\<forall>c\<in>set (take n t). P c \<Longrightarrow> n \<le> length t \<Longrightarrow> take n (takeWhile P t) = take n t"
proof (induction t arbitrary: n)
  case Nil
  then show ?case by simp
next
  case (Cons x t)
  then show ?case by (cases n) auto
qed

lemma head_transfer:
  assumes "match_lens p prev t \<noteq> []" and "Bnd \<notin> set p"
    and "prefix (takeWhile (\<lambda>c. c \<in> set (pat_chars p)) t) s"
  shows "match_lens p prev' s \<noteq> []"
proof -
  let ?P = "\<lambda>c. c \<in> set (pat_chars p)"
  from assms(1) obtain n where n: "n \<in> set (match_lens p prev t)"
    by (cases "match_lens p prev t") auto
  have le: "n \<le> length t" using match_lens_le[OF n] .
  have all: "\<forall>c\<in>set (take n t). ?P c" using match_lens_chars[OF n] by blast
  have tk: "take n (takeWhile ?P t) = take n t" using take_takeWhile[OF all le] .
  have "length (take n (takeWhile ?P t)) = n" using tk le by simp
  then have le': "n \<le> length (takeWhile ?P t)" by simp
  obtain z where "s = takeWhile ?P t @ z" using assms(3) by (auto simp: prefix_def)
  then have "take n s = take n t" using tk le' by simp
  then have "n \<in> set (match_lens p prev' s)" using match_lens_local[OF n assms(2)] by simp
  then show ?thesis by auto
qed

lemma takeWhile_sub_loop:
  assumes "repl \<noteq> []" and "\<not> P (hd repl)"
  shows "prefix (takeWhile P (sub_loop q repl 0 prev s)) s"
proof (induction s arbitrary: prev)
  case Nil
  then show ?case using assms by (cases repl) auto
next
  case (Cons x s)
  have r: "takeWhile P (repl @ z) = []" for z using assms by (cases repl) auto
  show ?case
  proof (cases "match_at q prev (x # s)")
    case None
    then show ?thesis using Cons.IH[of "Some x"] by simp
  next
    case (Some n)
    then show ?thesis using r by (cases n) auto
  qed
qed

lemma occurs_sub_loop:
  "inert e cs repl \<Longrightarrow> occurs e (sub_loop q repl k prev s) \<Longrightarrow> occurs e s"
proof (induction q repl k prev s rule: sub_loop.induct)
  case (1 p repl skip prev)
  then show ?case
    using occurs_after_repl[OF "1.prems"(1), of "[]"] by (auto split: if_splits)
next
  case (2 p repl k prev x xs)
  then show ?case by (simp add: occurs_Cons)
next
  case (3 p repl prev x xs)
  note inert = "3.prems"(1)
  have b: "Bnd \<notin> set e" and r: "repl \<noteq> []" "hd repl \<notin> set (pat_chars e)"
    using inert by (auto simp: inert_def)
  have head: "occurs e (x # xs)" if "match_lens e None (x # sub_loop p repl 0 (Some x) xs) \<noteq> []"
  proof -
    let ?P = "\<lambda>c. c \<in> set (pat_chars e)"
    have "prefix (takeWhile ?P (sub_loop p repl 0 (Some x) xs)) xs"
      using takeWhile_sub_loop[of repl ?P p "Some x" xs] r by simp
    then have "prefix (takeWhile ?P (x # sub_loop p repl 0 (Some x) xs)) (x # xs)" by simp
    then have "match_lens e None (x # xs) \<noteq> []" using head_transfer[OF that b] by blast
    then show ?thesis by (simp add: occurs_Cons)
  qed
  show ?case
  proof (cases "match_at p prev (x # xs)")
    case None
    then have "occurs e (x # sub_loop p repl 0 (Some x) xs)" using "3.prems"(2) by simp
    then show ?thesis using head "3.IH"(1)[OF None inert] by (auto simp: occurs_Cons)
  next
    case (Some n)
    show ?thesis
    proof (cases n)
      case 0
      then have "occurs e (repl @ x # sub_loop p repl 0 (Some x) xs)"
        using "3.prems"(2) Some by simp
      then have "occurs e (x # sub_loop p repl 0 (Some x) xs)"
        using occurs_after_repl[OF inert] by blast
      then show ?thesis using head "3.IH"(2)[OF Some 0 inert] by (auto simp: occurs_Cons)
    next
      case (Suc k)
      then have "occurs e (repl @ sub_loop p repl k (Some x) xs)"
        using "3.prems"(2) Some by simp
      then have "occurs e (sub_loop p repl k (Some x) xs)"
        using occurs_after_repl[OF inert] by blast
      then show ?thesis using "3.IH"(3)[OF Some Suc inert] by (simp add: occurs_Cons)
    qed
  qed
qed

lemma no_empty_match:
  assumes "inert e cs repl"
  shows "0 \<notin> set (match_lens e prev s)"
proof
  assume "0 \<in> set (match_lens e prev s)"
  then have "\<exists>x\<in>set (take 0 s). x \<in> set cs"
    using match_lens_needs[of 0 e prev s cs] assms by (simp add: inert_def)
  then show False by simp
qed

lemma sub_loop_kills:
  "inert e cs repl \<Longrightarrow> \<not> occurs e (sub_loop e repl k prev s)"
proof (induction e repl k prev s rule: sub_loop.induct)
  case (1 p repl skip prev)
  have "\<not> occurs p []"
    using no_empty_match[OF "1.prems", of None "[]"] match_lens_le[of _ p None "[]"]
    by (cases "match_lens p None []") (auto simp: occurs_Nil)
  then show ?case using occurs_after_repl[OF "1.prems", of "[]"] by auto
next
  case (2 p repl k prev x xs)
  then show ?case by simp
next
  case (3 p repl prev x xs)
  note inert = "3.prems"
  have b: "Bnd \<notin> set p" and r: "repl \<noteq> []" "hd repl \<notin> set (pat_chars p)"
    using inert by (auto simp: inert_def)
  show ?case
  proof (cases "match_at p prev (x # xs)")
    case None
    have "match_lens p None (x # sub_loop p repl 0 (Some x) xs) = []"
    proof (rule ccontr)
      assume ne: "match_lens p None (x # sub_loop p repl 0 (Some x) xs) \<noteq> []"
      let ?P = "\<lambda>c. c \<in> set (pat_chars p)"
      have "prefix (takeWhile ?P (sub_loop p repl 0 (Some x) xs)) xs"
        using takeWhile_sub_loop[of repl ?P p "Some x" xs] r by simp
      then have "prefix (takeWhile ?P (x # sub_loop p repl 0 (Some x) xs)) (x # xs)" by simp
      then have "match_lens p prev (x # xs) \<noteq> []" using head_transfer[OF ne b] by blast
      then show False using None by (auto simp: match_at_def split: list.splits)
    qed
    then show ?thesis using None "3.IH"(1)[OF None inert] by (simp add: occurs_Cons)
  next
    case (Some n)
    then have n: "n \<in> set (match_lens p prev (x # xs))"
      by (auto simp: match_at_def split: list.splits)
    have "n \<noteq> 0"
    proof
      assume "n = 0"
      then show False using n no_empty_match[OF inert, of prev "x # xs"] by simp
    qed
    then obtain k where k: "n = Suc k" by (cases n) auto
    have "\<not> occurs p (sub_loop p repl k (Some x) xs)" using "3.IH"(3)[OF _ k inert] Some by simp
    then have "\<not> occurs p (repl @ sub_loop p repl k (Some x) xs)"
      using occurs_after_repl[OF inert] by blast
    then show ?thesis using Some k by simp
  qed
qed

lemma upper_names:
  "upper ''email'' = ''EMAIL''" "upper ''phone'' = ''PHONE''" "upper ''aadhaar'' = ''AADHAAR''"
  by (simp_all add: upper_def upper_char_def ascii_lowercase_def ascii_uppercase_def)

lemma email_pat_chars:
  "set (pat_chars email_pattern) = set email_chars \<union> {CHR ''@''}"
  by (auto simp: pat_chars_def email_pattern_def email_chars_def ascii_lowercase_def
                 ascii_uppercase_def digits_def)

lemma inert_email:
  "inert email_pattern ''@'' ''[EMAIL]''"
  "inert email_pattern ''@'' ''[PHONE]''"
  "inert email_pattern ''@'' ''[AADHAAR]''"
  unfolding inert_def email_pat_chars
  by (simp_all add: email_pattern_def email_chars_def ascii_lowercase_def
                 ascii_uppercase_def digits_def)

lemma mask_step_keeps:
  assumes "inert e cs repl" and "\<not> occurs e m"
  shows "\<not> occurs e (if search q m then sub q repl m else m)"
  using assms occurs_sub_loop[OF assms(1), of q 0 None m] by (auto simp: sub_def)

subsection \<open>The aggregator\<close>

text \<open>
  C1. When a matched rule has severity HIGH and action BLOCK (both compared in upper
  case, as the code does), \<open>decision_aggregator\<close> returns BLOCK whatever the
  classifier's distribution is, and the classifier result is part of the returned value.
  The run below is at a distribution with every probability 0.
\<close>

theorem C1_tier1_precedence:
  assumes "match_rules st text = Inr ms"
    and "\<exists>r\<in>set ms. upper (severity r) = ''HIGH'' \<and> upper (action r) = ''BLOCK''"
    and "classify_text st text = Inr c"
  shows "decision_aggregator st text =
           Inr \<lparr>decision = BLOCK, matched_rules = ms, classifier = c,
                block_hits = None, warn_hits = None\<rparr>"
  using assms aggregator_tier1[of st "text" ms c] by (simp add: high_block_ex)

theorem C1_tier1_precedence_witness:
  "match_rules demo_state ''How to Overdose safely'' = Inr [demo_rules ! 0]
   \<and> severity (demo_rules ! 0) = ''HIGH'' \<and> action (demo_rules ! 0) = ''BLOCK''
   \<and> clf_predict_proba demo_state ''How to Overdose safely'' = [0, 0, 0, 0]
   \<and> map_sum id decision (decision_aggregator demo_state ''How to Overdose safely'') = Inr BLOCK"
proof -
  let ?t = "''How to Overdose safely''"
  have m: "match_rules demo_state ?t = Inr [demo_rules ! 0]" by code_simp
  have h: "\<exists>r\<in>set [demo_rules ! 0]. upper (severity r) = ''HIGH'' \<and> upper (action r) = ''BLOCK''"
    by code_simp
  have "\<not> isl (classify_text demo_state ?t)" by code_simp
  then obtain c where c: "classify_text demo_state ?t = Inr c"
    by (cases "classify_text demo_state ?t") auto
  have d: "map_sum id decision (decision_aggregator demo_state ?t) = Inr BLOCK"
    using C1_tier1_precedence[OF m h c] by simp
  have s: "severity (demo_rules ! 0) = ''HIGH'' \<and> action (demo_rules ! 0) = ''BLOCK''"
    by code_simp
  have p: "clf_predict_proba demo_state ?t = [0, 0, 0, 0]" by code_simp
  show ?thesis using m d s p by simp
qed



text \<open>
  C3. When no HIGH/BLOCK rule matched and no class recorded a block-hit or a warn-hit,
  the decision is read off the classifier's top score, the largest probability of the
  distribution: BLOCK from 0.85 on (0.85 included), WARN from 0.5 up to 0.85, ALLOW below
  0.5. The runs are at top scores 0.85, 0.6 and 0.4.
\<close>

theorem C3_top_label_fallback:
  assumes "match_rules st text = Inr ms"
    and "\<not> (\<exists>r\<in>set ms. upper (severity r) = ''HIGH'' \<and> upper (action r) = ''BLOCK'')"
    and "classify_text st text = Inr c"
    and "\<forall>ct\<in>set (CLASS_THRESHOLDS st).
           \<not> block_hit (proba c) ct \<and> \<not> warn_hit (proba c) (WARN_THRESHOLDS st) ct"
  shows "decision_aggregator st text =
           Inr \<lparr>decision = (if score c \<ge> 0.85 then BLOCK
                             else if score c \<ge> 0.5 then WARN else ALLOW),
                matched_rules = ms, classifier = c, block_hits = None, warn_hits = None\<rparr>
         \<and> score c = Max (set (clf_predict_proba st text))"
proof -
  have nb: "\<not> list_ex high_block ms" using assms(2) by (simp add: high_block_ex)
  have e1: "filter (block_hit (proba c)) (CLASS_THRESHOLDS st) = []"
    using assms(4) by (simp add: filter_empty_conv)
  have e2: "filter (warn_hit (proba c) (WARN_THRESHOLDS st)) (CLASS_THRESHOLDS st) = []"
    using assms(4) by (simp add: filter_empty_conv)
  show ?thesis
    using aggregator_tier23[OF assms(1) nb assms(3)] e1 e2 classify_text_score[OF assms(3)]
    by (simp add: Let_def)
qed

theorem C3_top_label_fallback_witness:
  "map_sum id score (classify_text demo_state ''hello'') = Inr 0.85
   \<and> map_sum id decision (decision_aggregator demo_state ''hello'') = Inr BLOCK
   \<and> map_sum id score (classify_text demo_state ''What is a normal blood pressure?'') = Inr 0.6
   \<and> map_sum id decision (decision_aggregator demo_state ''What is a normal blood pressure?'') = Inr WARN
   \<and> map_sum id score (classify_text demo_state ''good morning'') = Inr 0.4
   \<and> map_sum id decision (decision_aggregator demo_state ''good morning'') = Inr ALLOW"
proof -
  have run: "map_sum id decision (decision_aggregator demo_state t) =
             Inr (if s \<ge> 0.85 then BLOCK else if s \<ge> 0.5 then WARN else ALLOW)"
    if m: "match_rules demo_state t = Inr []"
      and i: "\<not> isl (classify_text demo_state t)"
      and s: "map_sum id score (classify_text demo_state t) = Inr s"
      and n: "\<forall>ct\<in>set (CLASS_THRESHOLDS demo_state).
               \<not> block_hit (proba (projr (classify_text demo_state t))) ct \<and>
               \<not> warn_hit (proba (projr (classify_text demo_state t))) (WARN_THRESHOLDS demo_state) ct"
    for t s
  proof -
    obtain c where c: "classify_text demo_state t = Inr c"
      using i by (cases "classify_text demo_state t") auto
    have h: "\<not> (\<exists>r\<in>set []. upper (severity r) = ''HIGH'' \<and> upper (action r) = ''BLOCK'')"
      by simp
    from C3_top_label_fallback[OF m h c] n s c show ?thesis by simp
  qed
  have m1: "match_rules demo_state ''hello'' = Inr []" by code_simp
  have i1: "\<not> isl (classify_text demo_state ''hello'')" by code_simp
  have s1: "map_sum id score (classify_text demo_state ''hello'') = Inr 0.85" by code_simp
  have n1: "\<forall>ct\<in>set (CLASS_THRESHOLDS demo_state).
               \<not> block_hit (proba (projr (classify_text demo_state ''hello''))) ct \<and>
               \<not> warn_hit (proba (projr (classify_text demo_state ''hello'')))
                    (WARN_THRESHOLDS demo_state) ct"
    by code_simp
  have d1: "map_sum id decision (decision_aggregator demo_state ''hello'') = Inr BLOCK"
    using run[OF m1 i1 s1 n1] by simp
  have m2: "match_rules demo_state ''What is a normal blood pressure?'' = Inr []" by code_simp
  have i2: "\<not> isl (classify_text demo_state ''What is a normal blood pressure?'')" by code_simp
  have s2: "map_sum id score (classify_text demo_state ''What is a normal blood pressure?'') = Inr 0.6" by code_simp
  have n2: "\<forall>ct\<in>set (CLASS_THRESHOLDS demo_state).
               \<not> block_hit (proba (projr (classify_text demo_state ''What is a normal blood pressure?''))) ct \<and>
               \<not> warn_hit (proba (projr (classify_text demo_state ''What is a normal blood pressure?'')))
                    (WARN_THRESHOLDS demo_state) ct"
    by code_simp
  have d2: "map_sum id decision (decision_aggregator demo_state ''What is a normal blood pressure?'') = Inr WARN"
    using run[OF m2 i2 s2 n2] by simp
  have m3: "match_rules demo_state ''good morning'' = Inr []" by code_simp
  have i3: "\<not> isl (classify_text demo_state ''good morning'')" by code_simp
  have s3: "map_sum id score (classify_text demo_state ''good morning'') = Inr 0.4" by code_simp
  have n3: "\<forall>ct\<in>set (CLASS_THRESHOLDS demo_state).
               \<not> block_hit (proba (projr (classify_text demo_state ''good morning''))) ct \<and>
               \<not> warn_hit (proba (projr (classify_text demo_state ''good morning'')))
                    (WARN_THRESHOLDS demo_state) ct"
    by code_simp
  have d3: "map_sum id decision (decision_aggregator demo_state ''good morning'') = Inr ALLOW"
    using run[OF m3 i3 s3 n3] by simp
  show ?thesis using d1 d2 d3 s1 s2 s3 by simp
qed

text \<open>
  C4. The specification's scenario: the top label is a class outside the threshold
  table, the top score is 0.9, no hazardous class reaches its warn threshold and no rule
  matches. The specification expects ALLOW; the code decides BLOCK, because Tier 3 reads
  the top score whatever the top label is, as the docstring of \<open>decision_aggregator\<close>
  announces (top probability at or above 0.85 gives BLOCK). Stated as the code has it:
  under these conditions the decision is BLOCK.
\<close>

theorem C4_non_hazardous_top_label_blocks:
  assumes "match_rules st text = Inr []"
    and "classify_text st text = Inr c"
    and "label c \<notin> set (map fst (CLASS_THRESHOLDS st))"
    and "score c = 0.9"
    and "\<forall>ct\<in>set (CLASS_THRESHOLDS st).
           dict_get (proba c) (fst ct) 0 < warn_threshold (WARN_THRESHOLDS st) ct"
  shows "\<exists>a. decision_aggregator st text = Inr a \<and> decision a = BLOCK"
proof -
  have nb: "\<not> list_ex high_block []" by simp
  have nw: "filter (warn_hit (proba c) (WARN_THRESHOLDS st)) (CLASS_THRESHOLDS st) = []"
    using assms(5) by (auto simp: filter_empty_conv warn_hit_def)
  show ?thesis
    using aggregator_tier23[OF assms(1) nb assms(2)] nw assms(4)
    by (auto simp: Let_def)
qed

theorem C4_non_hazardous_top_label_blocks_witness:
  "match_rules demo_state ''What are symptoms of flu?'' = Inr []
   \<and> map_sum id label (classify_text demo_state ''What are symptoms of flu?'') = Inr ''general_info''
   \<and> map_sum id decision (decision_aggregator demo_state ''What are symptoms of flu?'') = Inr BLOCK"
proof -
  let ?t = "''What are symptoms of flu?''"
  have m: "match_rules demo_state ?t = Inr []" by code_simp
  have "\<not> isl (classify_text demo_state ?t)" by code_simp
  then obtain c where c: "classify_text demo_state ?t = Inr c"
    by (cases "classify_text demo_state ?t") auto
  have l: "label (projr (classify_text demo_state ?t)) = ''general_info''" by code_simp
  have l': "label (projr (classify_text demo_state ?t)) \<notin> set (map fst (CLASS_THRESHOLDS demo_state))"
    by code_simp
  have s: "score (projr (classify_text demo_state ?t)) = 0.9" by code_simp
  have n: "\<forall>ct\<in>set (CLASS_THRESHOLDS demo_state).
             dict_get (proba (projr (classify_text demo_state ?t))) (fst ct) 0
               < warn_threshold (WARN_THRESHOLDS demo_state) ct"
    by code_simp
  have "\<exists>a. decision_aggregator demo_state ?t = Inr a \<and> decision a = BLOCK"
    using C4_non_hazardous_top_label_blocks[OF m c] l' s n c by simp
  then show ?thesis using m l c by auto
qed

text \<open>
  C4, the scenario run on the configuration above: every condition of the scenario
  holds and the decision is BLOCK, not ALLOW.
\<close>

theorem C4_flu_scenario_counterexample:
  "match_rules demo_state ''What are symptoms of flu?'' = Inr []
   \<and> map_sum id label (classify_text demo_state ''What are symptoms of flu?'') = Inr ''general_info''
   \<and> ''general_info'' \<notin> set (map fst (CLASS_THRESHOLDS demo_state))
   \<and> map_sum id score (classify_text demo_state ''What are symptoms of flu?'') = Inr 0.9
   \<and> CLASS_THRESHOLDS demo_state
       = [(''self_harm'', 0.40), (''prescription_request'', 0.60), (''procedural'', 0.55)]
   \<and> dict_get (proba (projr (classify_text demo_state ''What are symptoms of flu?''))) ''self_harm'' 0
       < warn_threshold (WARN_THRESHOLDS demo_state) (''self_harm'', 0.40)
   \<and> dict_get (proba (projr (classify_text demo_state ''What are symptoms of flu?'')))
         ''prescription_request'' 0
       < warn_threshold (WARN_THRESHOLDS demo_state) (''prescription_request'', 0.60)
   \<and> dict_get (proba (projr (classify_text demo_state ''What are symptoms of flu?''))) ''procedural'' 0
       < warn_threshold (WARN_THRESHOLDS demo_state) (''procedural'', 0.55)
   \<and> map_sum id decision (decision_aggregator demo_state ''What are symptoms of flu?'') = Inr BLOCK
   \<and> BLOCK \<noteq> ALLOW"
  by code_simp

text \<open>
  C5. Monotonicity in the rule configuration: with the same thresholds, classifier and
  text, if the aggregator returns under a rule list, it returns under every rule list
  whose rules all belong to the first, with a decision that is not greater in the order
  \<open>ALLOW < WARN < BLOCK\<close>.
\<close>

theorem C5_rule_monotonicity:
  assumes "set rs2 \<subseteq> set (RULES st)"
    and "decision_aggregator st text = Inr a1"
  shows "\<exists>a2. decision_aggregator (st\<lparr>RULES := rs2\<rparr>) text = Inr a2 \<and>
              decision_rank (decision a2) \<le> decision_rank (decision a1)"
proof -
  let ?st2 = "st\<lparr>RULES := rs2\<rparr>"
  obtain ms1 where m1: "match_rules st text = Inr ms1"
    using assms(2) by (cases "match_rules st text") (auto simp: decision_aggregator_def)
  obtain c where c: "classify_text st text = Inr c"
    using assms(2) m1
    by (cases "classify_text st text") (auto simp: decision_aggregator_def split: if_splits)
  have c2: "classify_text ?st2 text = Inr c"
    using c by (simp add: classify_text_def)
  have comp1: "list_all (compiles st) (RULES st)" and ms1: "ms1 = filter (rule_matches st text) (RULES st)"
    using match_rules_Inr[OF m1] by auto
  have comp2: "list_all (compiles ?st2) (RULES ?st2)"
    using comp1 assms(1) by (auto simp: list_all_iff compiles_def)
  let ?ms2 = "filter (rule_matches ?st2 text) rs2"
  have m2: "match_rules ?st2 text = Inr ?ms2"
    using match_rules_ok[OF comp2, of "text"] by simp
  have sub: "set ?ms2 \<subseteq> set ms1"
    using assms(1) by (auto simp: ms1 rule_matches_def split: sum.splits)
  show ?thesis
  proof (cases "list_ex high_block ms1")
    case True
    then have "decision a1 = BLOCK"
      using aggregator_tier1[OF m1 True c] assms(2) by auto
    moreover obtain a2 where "decision_aggregator ?st2 text = Inr a2"
      using aggregator_returns[OF m2 c2] by blast
    ultimately show ?thesis by (cases "decision a2") auto
  next
    case False
    then have nb2: "\<not> list_ex high_block ?ms2"
      using sub by (auto simp: list_ex_iff)
    from aggregator_tier23[OF m1 False c] aggregator_tier23[OF m2 nb2 c2] assms(2)
    show ?thesis by (auto simp: Let_def)
  qed
qed

theorem C5_rule_monotonicity_witness:
  "set [demo_rules ! 1] \<subseteq> set (RULES demo_state)
   \<and> map_sum id decision (decision_aggregator demo_state ''How to Overdose safely'') = Inr BLOCK
   \<and> map_sum id decision
        (decision_aggregator (demo_state\<lparr>RULES := [demo_rules ! 1]\<rparr>) ''How to Overdose safely'')
       = Inr ALLOW
   \<and> decision_rank ALLOW \<le> decision_rank BLOCK"
proof -
  let ?t = "''How to Overdose safely''"
  have s: "set [demo_rules ! 1] \<subseteq> set (RULES demo_state)" by code_simp
  have "\<not> isl (decision_aggregator demo_state ?t)" by code_simp
  then obtain a1 where a1: "decision_aggregator demo_state ?t = Inr a1"
    by (cases "decision_aggregator demo_state ?t") auto
  have d1: "map_sum id decision (decision_aggregator demo_state ?t) = Inr BLOCK" by code_simp
  have d2: "map_sum id decision
        (decision_aggregator (demo_state\<lparr>RULES := [demo_rules ! 1]\<rparr>) ?t) = Inr ALLOW"
    by code_simp
  obtain a2 where "decision_aggregator (demo_state\<lparr>RULES := [demo_rules ! 1]\<rparr>) ?t = Inr a2"
      and "decision_rank (decision a2) \<le> decision_rank (decision a1)"
    using C5_rule_monotonicity[OF s a1] by blast
  then have "decision_rank ALLOW \<le> decision_rank BLOCK"
    using d1 d2 a1 by simp
  then show ?thesis using s d1 d2 by blast
qed

text \<open>
  C10. Whatever \<open>decision_aggregator\<close> returns holds one of the three decisions, the
  full list returned by \<open>match_rules\<close> and the result of \<open>classify_text\<close>. It
  never holds both a \<open>block_hits\<close> and a \<open>warn_hits\<close> entry: \<open>warn_hits\<close>
  comes only with WARN, \<open>block_hits\<close> only with BLOCK, and once a class is a block-hit
  no \<open>warn_hits\<close> entry is returned, also when another class was a warn-hit (as in
  the run below).
\<close>

theorem C10_aggregate_shape:
  assumes "decision_aggregator st text = Inr a"
  shows "decision a \<in> {ALLOW, WARN, BLOCK}
         \<and> match_rules st text = Inr (matched_rules a)
         \<and> classify_text st text = Inr (classifier a)
         \<and> \<not> (block_hits a \<noteq> None \<and> warn_hits a \<noteq> None)
         \<and> (warn_hits a \<noteq> None \<longrightarrow> decision a = WARN)
         \<and> (block_hits a \<noteq> None \<longrightarrow> decision a = BLOCK)
         \<and> ((\<exists>ct\<in>set (CLASS_THRESHOLDS st). block_hit (proba (classifier a)) ct)
              \<longrightarrow> warn_hits a = None)"
proof -
  obtain ms where m: "match_rules st text = Inr ms"
    using assms by (cases "match_rules st text") (auto simp: decision_aggregator_def)
  obtain c where c: "classify_text st text = Inr c"
    using assms m
    by (cases "classify_text st text") (auto simp: decision_aggregator_def split: if_splits)
  have d: "decision a \<in> {ALLOW, WARN, BLOCK}" by (cases "decision a") auto
  show ?thesis
  proof (cases "list_ex high_block ms")
    case True
    have "a = \<lparr>decision = BLOCK, matched_rules = ms, classifier = c,
               block_hits = None, warn_hits = None\<rparr>"
      using aggregator_tier1[OF m True c] assms by simp
    then show ?thesis using m c by simp
  next
    case False
    have bs: "filter (block_hit (proba c)) (CLASS_THRESHOLDS st) \<noteq> [] \<longleftrightarrow>
              (\<exists>ct\<in>set (CLASS_THRESHOLDS st). block_hit (proba c) ct)"
      by (simp add: filter_empty_conv)
    show ?thesis
      using aggregator_tier23[OF m False c] assms m c bs d
      by (auto simp: Let_def split: if_splits)
  qed
qed

theorem C10_aggregate_shape_witness:
  "map_sum id decision (decision_aggregator demo_state ''pills and needles'') = Inr BLOCK
   \<and> map_sum id block_hits (decision_aggregator demo_state ''pills and needles'')
       = Inr (Some [\<lparr>hit_class = ''self_harm'', hit_prob = 0.45, hit_threshold = 0.40\<rparr>])
   \<and> warn_hit (proba (projr (classify_text demo_state ''pills and needles'')))
        (WARN_THRESHOLDS demo_state) (''prescription_request'', 0.60)
   \<and> warn_hits (projr (decision_aggregator demo_state ''pills and needles'')) = None"
proof -
  let ?t = "''pills and needles''"
  have "\<not> isl (decision_aggregator demo_state ?t)" by code_simp
  then obtain a where a: "decision_aggregator demo_state ?t = Inr a"
    by (cases "decision_aggregator demo_state ?t") auto
  have b: "\<exists>ct\<in>set (CLASS_THRESHOLDS demo_state).
             block_hit (proba (classifier (projr (decision_aggregator demo_state ?t)))) ct"
    by code_simp
  have w: "warn_hits (projr (decision_aggregator demo_state ?t)) = None"
    using C10_aggregate_shape[OF a] b a by simp
  have d: "map_sum id decision (decision_aggregator demo_state ?t) = Inr BLOCK" by code_simp
  have h: "map_sum id block_hits (decision_aggregator demo_state ?t)
       = Inr (Some [\<lparr>hit_class = ''self_harm'', hit_prob = 0.45, hit_threshold = 0.40\<rparr>])"
    by code_simp
  have wh: "warn_hit (proba (projr (classify_text demo_state ?t)))
        (WARN_THRESHOLDS demo_state) (''prescription_request'', 0.60)"
    by code_simp
  show ?thesis using w d h wh by simp
qed

subsection \<open>The rule engine\<close>

text \<open>
  C7. On a configuration whose patterns all compile, \<open>match_rules\<close> returns exactly
  the rules whose pattern, compiled with \<open>re.IGNORECASE\<close>, is found in the text, in
  configuration order: a subsequence of \<open>RULES\<close>. The result is a function of the
  text and the configuration alone, so a repeated call returns the same list.
\<close>

theorem C7_match_rules_subsequence:
  assumes "list_all (compiles st) (RULES st)"
  shows "match_rules st text = Inr (filter (rule_matches st text) (RULES st))
         \<and> subseq (filter (rule_matches st text) (RULES st)) (RULES st)
         \<and> set (filter (rule_matches st text) (RULES st)) \<subseteq> set (RULES st)"
  using match_rules_ok[OF assms] by simp

theorem C7_match_rules_subsequence_witness:
  "list_all (compiles demo_state) (RULES demo_state)
   \<and> match_rules demo_state ''overdose or dosage'' = Inr demo_rules
   \<and> match_rules demo_state ''Insulin DOSAGE'' = Inr [demo_rules ! 1]"
proof -
  have c: "list_all (compiles demo_state) (RULES demo_state)" by code_simp
  have f1: "filter (rule_matches demo_state ''overdose or dosage'') (RULES demo_state) = demo_rules"
    by code_simp
  have f2: "filter (rule_matches demo_state ''Insulin DOSAGE'') (RULES demo_state) = [demo_rules ! 1]"
    by code_simp
  show ?thesis
    using C7_match_rules_subsequence[OF c, of "''overdose or dosage''"]
          C7_match_rules_subsequence[OF c, of "''Insulin DOSAGE''"] c f1 f2 by simp
qed

text \<open>
  C8. The specification places the failure for a malformed pattern at load time and
  lets \<open>match_rules\<close> assume valid patterns. The code does otherwise: loading keeps
  the rules as the file has them, and \<open>match_rules\<close> compiles each pattern at every
  call. Stated as the code has it: loading accepts every rule list, and for every text
  \<open>match_rules\<close> returns exactly when every configured pattern compiles and raises
  \<open>re.error\<close> otherwise.
\<close>

theorem C8_pattern_errors_at_match_time:
  "load_rules rs = Inr rs
   \<and> ((\<exists>ms. match_rules (st\<lparr>RULES := rs\<rparr>) text = Inr ms) \<longleftrightarrow> list_all (compiles st) rs)
   \<and> ((\<exists>msg. match_rules (st\<lparr>RULES := rs\<rparr>) text = Inl (ReError msg))
        \<longleftrightarrow> \<not> list_all (compiles st) rs)"
proof -
  let ?st = "st\<lparr>RULES := rs\<rparr>"
  have eq: "list_all (compiles ?st) (RULES ?st) = list_all (compiles st) rs"
    by (simp add: compiles_def list_all_iff)
  have "\<exists>ms. match_rules ?st text = Inr ms" if "list_all (compiles st) rs"
    using match_rules_ok[of ?st "text"] that eq by simp
  moreover have "\<exists>msg. match_rules ?st text = Inl (ReError msg)" if "\<not> list_all (compiles st) rs"
    using match_rules_err[of ?st "text"] that eq by simp
  ultimately show ?thesis by (cases "list_all (compiles st) rs") (auto simp: load_rules_def)
qed

text \<open>
  C8, a run: a rule list holding the pattern \<open>(\<close> is loaded without error, and
  \<open>match_rules\<close> then raises on a text.
\<close>

theorem C8_malformed_pattern_counterexample:
  "load_rules (demo_rules @ bad_rules) = Inr (demo_rules @ bad_rules)
   \<and> match_rules (demo_state\<lparr>RULES := projr (load_rules (demo_rules @ bad_rules))\<rparr>) ''hello''
       = Inl (ReError ''pattern outside the literal fragment'')"
  by code_simp

subsection \<open>The PII redactor\<close>

text \<open>
  C6. When the email pattern is found in the text, the masked text returned by
  \<open>mask_pii\<close> holds no match of the email pattern and \<open>email\<close> is in the returned
  list of PII categories. The email substitution leaves no match, and the phone and
  national-identifier substitutions that follow cannot create one: a match cannot cross
  a bracket of a placeholder, and a placeholder has no \<open>@\<close>.
\<close>

theorem C6_email_masked:
  assumes "search email_pattern text"
  shows "\<not> search email_pattern (masked_text (mask_pii text))
         \<and> ''email'' \<in> set (pii (mask_pii text))"
proof -
  have b: "Bnd \<notin> set email_pattern" by (simp add: email_pattern_def)
  let ?m1 = "sub email_pattern ''[EMAIL]'' text"
  let ?m2 = "if search phone_pattern ?m1 then sub phone_pattern ''[PHONE]'' ?m1 else ?m1"
  let ?m3 = "if search aadhaar_pattern ?m2 then sub aadhaar_pattern ''[AADHAAR]'' ?m2 else ?m2"
  have m1: "\<not> occurs email_pattern ?m1"
    using sub_loop_kills[OF inert_email(1)] by (simp add: sub_def)
  have m2: "\<not> occurs email_pattern ?m2"
    using mask_step_keeps[OF inert_email(2) m1] .
  have m3: "\<not> occurs email_pattern ?m3"
    using mask_step_keeps[OF inert_email(3) m2] .
  have mt: "masked_text (mask_pii text) = ?m3"
    using assms by (simp add: mask_pii_def PII_PATTERNS_def upper_names)
  have "''email'' \<in> set (pii (mask_pii text))"
    using assms by (simp add: mask_pii_def PII_PATTERNS_def upper_names)
  then show ?thesis using m3 mt search_occurs[OF b] by simp
qed

theorem C6_email_masked_witness:
  "search email_pattern ''mail a.b@c.d.ef1 or x@y.z1234567890''
   \<and> masked_text (mask_pii ''mail a.b@c.d.ef1 or x@y.z1234567890'') = ''mail [EMAIL]1 or [EMAIL][PHONE]''
   \<and> pii (mask_pii ''mail a.b@c.d.ef1 or x@y.z1234567890'') = [''email'', ''phone'']
   \<and> \<not> search email_pattern (masked_text (mask_pii ''mail a.b@c.d.ef1 or x@y.z1234567890''))"
proof -
  let ?t = "''mail a.b@c.d.ef1 or x@y.z1234567890''"
  have s: "search email_pattern ?t" by code_simp
  have m: "masked_text (mask_pii ?t) = ''mail [EMAIL]1 or [EMAIL][PHONE]''" by code_simp
  have p: "pii (mask_pii ?t) = [''email'', ''phone'']" by code_simp
  show ?thesis using C6_email_masked[OF s] s m p by simp
qed

subsection \<open>The request handler\<close>

text \<open>
  C9. When the audit sink raises, the request still completes: if \<open>chat_endpoint\<close>
  returns a response with some audit sink, it returns one with a sink that raises on
  every record, with the same decision and the same answer fields; the explanation is
  the same apart from the audit fields, where \<open>audit_id\<close> is absent and
  \<open>audit_error\<close> carries the text of the exception.
\<close>

theorem C9_audit_failure_is_soft:
  assumes "chat_endpoint st insert_audit now req = Inr r"
  shows "\<exists>r'. chat_endpoint st (\<lambda>a. Inl (msg a)) now req = Inr r'
              \<and> resp_decision r' = resp_decision r
              \<and> safe_response r' = safe_response r
              \<and> llm_response r' = llm_response r
              \<and> warning r' = warning r
              \<and> audit_id (resp_explain r') = None
              \<and> (\<exists>a. audit_error (resp_explain r') = Some (msg a))
              \<and> (resp_explain r')\<lparr>audit_error := None\<rparr>
                  = (resp_explain r)\<lparr>audit_id := None, audit_error := None\<rparr>"
  using assms
  by (auto simp: chat_endpoint_def Let_def split: sum.splits if_splits)

theorem C9_audit_failure_is_soft_witness:
  "map_sum id resp_decision
     (chat_endpoint demo_state (\<lambda>a. Inr 7) ''2024-01-01T00:00:00''
        \<lparr>req_text = Some ''I want to hurt myself'', req_session_id = None\<rparr>) = Inr BLOCK
   \<and> map_sum id resp_decision
     (chat_endpoint demo_state (\<lambda>a. Inl ''database is locked'') ''2024-01-01T00:00:00''
        \<lparr>req_text = Some ''I want to hurt myself'', req_session_id = None\<rparr>) = Inr BLOCK
   \<and> map_sum id (audit_error \<circ> resp_explain)
     (chat_endpoint demo_state (\<lambda>a. Inl ''database is locked'') ''2024-01-01T00:00:00''
        \<lparr>req_text = Some ''I want to hurt myself'', req_session_id = None\<rparr>)
       = Inr (Some ''database is locked'')"
proof -
  let ?req = "\<lparr>req_text = Some ''I want to hurt myself'', req_session_id = None\<rparr>"
  let ?now = "''2024-01-01T00:00:00''"
  let ?up = "chat_endpoint demo_state (\<lambda>a. Inr 7) ?now ?req"
  have "\<not> isl ?up" by code_simp
  then obtain r where r: "?up = Inr r" by (cases ?up) auto
  have d: "map_sum id resp_decision ?up = Inr BLOCK" by code_simp
  obtain r' where r': "chat_endpoint demo_state (\<lambda>a. Inl ''database is locked'') ?now ?req = Inr r'"
      "resp_decision r' = resp_decision r"
      "\<exists>a::audit_record. audit_error (resp_explain r') = Some ''database is locked''"
    using C9_audit_failure_is_soft[OF r, of "\<lambda>a. ''database is locked''"] by blast
  show ?thesis using d r r' by simp
qed

end
